theory Spec2Isabelle
  imports Main "HOL-Library.AList"
begin

section \<open>JavaScript objects of type Record<string, string>\<close>

text \<open>
  The file maps of the workspace (\<^verbatim>\<open>filesMap\<close>, \<^verbatim>\<open>newFiles\<close>, \<^verbatim>\<open>changedFiles\<close>,
  \<^verbatim>\<open>prevFilesRef.current\<close>) are plain objects used as dictionaries from path to content.
  An object is modelled as an association list in insertion order: \<^verbatim>\<open>Object.keys\<close> lists
  the own keys in the order they were first assigned, an assignment to an existing key
  keeps its position, an assignment to a new key appends it, and \<^verbatim>\<open>delete\<close> removes it.
  The paths are taken to be ordinary property names (not canonical array indices and not
  members of \<^verbatim>\<open>Object.prototype\<close>), which is what the declared type
  \<^verbatim>\<open>Record<string, string>\<close> says.
\<close>

type_synonym files = "(string \<times> string) list"

text \<open>\<^verbatim>\<open>obj[k]\<close>: the value, or \<^verbatim>\<open>undefined\<close> (here \<open>None\<close>) for an absent key.\<close>

definition lookup :: "files \<Rightarrow> string \<Rightarrow> string option" where
  "lookup obj k = map_of obj k"

text \<open>\<^verbatim>\<open>obj[k] = v\<close>\<close>

definition assign :: "string \<Rightarrow> string \<Rightarrow> files \<Rightarrow> files" where
  "assign k v obj = AList.update k v obj"

text \<open>\<^verbatim>\<open>delete obj[k]\<close>\<close>

definition delete_key :: "string \<Rightarrow> files \<Rightarrow> files" where
  "delete_key k obj = AList.delete k obj"

text \<open>\<^verbatim>\<open>Object.keys(obj)\<close>\<close>

definition keys :: "files \<Rightarrow> string list" where
  "keys obj = map fst obj"

text \<open>\<^verbatim>\<open>k in obj\<close>\<close>

definition has_key :: "string \<Rightarrow> files \<Rightarrow> bool" where
  "has_key k obj = (lookup obj k \<noteq> None)"

text \<open>\<^verbatim>\<open>{ ...a, ...b }\<close>: a copy of \<open>a\<close>, then every entry of \<open>b\<close> assigned in order.\<close>

definition spread :: "files \<Rightarrow> files \<Rightarrow> files" where
  "spread a b = fold (\<lambda>kv obj. assign (fst kv) (snd kv) obj) b a"

text \<open>
  Truthiness of a value that is a string or \<^verbatim>\<open>undefined\<close>: \<^verbatim>\<open>undefined\<close> and the empty
  string are falsy, every other string is truthy.
\<close>

fun truthy :: "string option \<Rightarrow> bool" where
  "truthy None = False"
| "truthy (Some s) = (s \<noteq> [])"

section \<open>The workspace view (BuilderView.tsx)\<close>

subsection \<open>The tree snapshot\<close>

text \<open>
  Modelled from the spec: the declaration of \<^verbatim>\<open>FileNode\<close> (imported from
  \<^verbatim>\<open>@/types/types\<close>) is not among the sources. The spec gives a node a \<^verbatim>\<open>path\<close>, a
  \<^verbatim>\<open>type\<close> in {file, directory}, an optional \<^verbatim>\<open>content\<close> and \<^verbatim>\<open>children\<close>; the view reads
  exactly these four fields. An absent \<^verbatim>\<open>children\<close> field is the empty list here: the view
  only ever iterates over it.
\<close>

datatype node_type = File | Directory

datatype fileNode =
  FileNode (path: string) (ntype: node_type) (content: "string option") (children: "fileNode list")

text \<open>
  \<^verbatim>\<open>traverse\<close> (BuilderView.tsx, lines 129-136) visits the nodes in order, each node before
  its children, and writes into the object \<^verbatim>\<open>newFiles\<close>, which is threaded through here.
\<close>

fun traverse_node :: "fileNode \<Rightarrow> files \<Rightarrow> files" where
  "traverse_node (FileNode p t c ch) newFiles =
     fold traverse_node ch
       (if t = File \<and> c \<noteq> None \<and> truthy c then assign p (the c) newFiles else newFiles)"

definition traverse :: "fileNode list \<Rightarrow> files \<Rightarrow> files" where
  "traverse nodes newFiles = fold traverse_node nodes newFiles"


subsection \<open>Component state\<close>

text \<open>
  React compares state values and effect dependencies by reference, so the object held
  in \<^verbatim>\<open>filesMap\<close> carries an identity \<open>oid\<close> besides its entries. Every object literal
  evaluated by an updater takes the next unused identity from \<open>next_oid\<close>.
\<close>

record filesObj =
  oid :: nat
  entries :: files

text \<open>
  The three "last event" slots delivered by \<^verbatim>\<open>useWebSocket\<close>. Each value is an object (or
  \<^verbatim>\<open>null\<close>, here \<open>None\<close>); the first field is the identity of that object.
\<close>

datatype receivedFile = ReceivedFile (rf_oid: nat) (rf_path: string) (rf_content: string)
datatype deletedPath = DeletedPath (dp_oid: nat) (dp_path: string)
datatype renamedFile = RenamedFile (rn_oid: nat) (oldPath: string) (newPath: string)

record builder_state =
  filesMap :: filesObj
  next_oid :: nat
  prevLastReceivedFileRef :: "receivedFile option"
  prevLastDeletedPathRef :: "deletedPath option"
  prevLastRenamedFileRef :: "renamedFile option"

text \<open>\<^verbatim>\<open>a !== b\<close> on two such slots: different identities, or exactly one of them \<^verbatim>\<open>null\<close>.\<close>

definition differs :: "('a \<Rightarrow> nat) \<Rightarrow> 'a option \<Rightarrow> 'a option \<Rightarrow> bool" where
  "differs ident a b = (map_option ident a \<noteq> map_option ident b)"

subsection \<open>The event effect (BuilderView.tsx, lines 84-123)\<close>

text \<open>
  The three branches of the updater, each on the pair of the local variables
  \<^verbatim>\<open>nextFilesMap\<close> and \<^verbatim>\<open>hasChanges\<close>. The updater starts from the copy \<^verbatim>\<open>{ ...prev }\<close>, a new
  object, and returns it if a branch has set \<^verbatim>\<open>hasChanges\<close>, and \<^verbatim>\<open>prev\<close> otherwise.
\<close>

definition applyReceived :: "receivedFile option \<Rightarrow> files \<times> bool \<Rightarrow> files \<times> bool" where
  "applyReceived lastReceivedFile acc =
     (case lastReceivedFile of
        Some f \<Rightarrow> (assign (rf_path f) (rf_content f) (fst acc), True)
      | None \<Rightarrow> acc)"

definition applyDeleted :: "deletedPath option \<Rightarrow> files \<times> bool \<Rightarrow> files \<times> bool" where
  "applyDeleted lastDeletedPath acc =
     (case lastDeletedPath of
        Some d \<Rightarrow> (delete_key (dp_path d) (fst acc), True)
      | None \<Rightarrow> acc)"

text \<open>
  Lines 111-117. The guard \<^verbatim>\<open>if (nextFilesMap[lastRenamedFile.oldPath])\<close> tests the
  truthiness of the value stored at the old path.
\<close>

definition applyRenamed :: "renamedFile option \<Rightarrow> files \<times> bool \<Rightarrow> files \<times> bool" where
  "applyRenamed lastRenamedFile acc =
     (case lastRenamedFile of
        Some r \<Rightarrow>
          (if truthy (lookup (fst acc) (oldPath r))
           then (delete_key (oldPath r)
                   (assign (newPath r) (the (lookup (fst acc) (oldPath r))) (fst acc)), True)
           else acc)
      | None \<Rightarrow> acc)"

definition filesMapSyncEffect ::
  "receivedFile option \<Rightarrow> deletedPath option \<Rightarrow> renamedFile option \<Rightarrow>
     builder_state \<Rightarrow> builder_state" where
  "filesMapSyncEffect lastReceivedFile lastDeletedPath lastRenamedFile s =
     (if lastReceivedFile = None \<and> lastDeletedPath = None \<and> lastRenamedFile = None then s
      else
        let prev = filesMap s;
            received = differs rf_oid lastReceivedFile (prevLastReceivedFileRef s);
            deleted = differs dp_oid lastDeletedPath (prevLastDeletedPathRef s);
            renamed = differs rn_oid lastRenamedFile (prevLastRenamedFileRef s);
            acc0 = (entries prev, False);
            acc1 = (if received then applyReceived lastReceivedFile acc0 else acc0);
            acc2 = (if deleted then applyDeleted lastDeletedPath acc1 else acc1);
            acc3 = (if renamed then applyRenamed lastRenamedFile acc2 else acc2)
        in s\<lparr>filesMap := (if snd acc3 then \<lparr>oid = next_oid s, entries = fst acc3\<rparr> else prev),
              next_oid := Suc (next_oid s),
              prevLastReceivedFileRef :=
                (if received then lastReceivedFile else prevLastReceivedFileRef s),
              prevLastDeletedPathRef :=
                (if deleted then lastDeletedPath else prevLastDeletedPathRef s),
              prevLastRenamedFileRef :=
                (if renamed then lastRenamedFile else prevLastRenamedFileRef s)\<rparr>)"

subsection \<open>The snapshot effect (BuilderView.tsx, lines 126-150)\<close>

definition fileTreeMergeEffect :: "fileNode list \<Rightarrow> builder_state \<Rightarrow> builder_state" where
  "fileTreeMergeEffect fileTree s =
     (if length fileTree > 0 then
        let newFiles = traverse fileTree [];
            prev = filesMap s;
            updated = \<lparr>oid = next_oid s, entries = spread (entries prev) newFiles\<rparr>;
            keys1 = keys (entries prev);
            keys2 = keys (entries updated)
        in s\<lparr>filesMap :=
               (if length keys1 = length keys2 \<and>
                   list_all (\<lambda>k. lookup (entries prev) k = lookup (entries updated) k) keys1
                then prev else updated),
             next_oid := Suc (next_oid s)\<rparr>
      else s)"

text \<open>All nodes of a snapshot, each node before its children.\<close>

fun nodes_of :: "fileNode \<Rightarrow> fileNode list" where
  "nodes_of (FileNode p t c ch) = FileNode p t c ch # concat (map nodes_of ch)"

definition all_nodes :: "fileNode list \<Rightarrow> fileNode list" where
  "all_nodes fileTree = concat (map nodes_of fileTree)"

subsection \<open>Example inputs of the workspace view\<close>

definition ex_tree :: "fileNode list" where
  "ex_tree =
     [FileNode ''src'' Directory None
        [FileNode ''src/a.js'' File (Some ''v1'') [],
         FileNode ''src/empty.js'' File (Some []) []],
      FileNode ''package.json'' File (Some ''{}'') [],
      FileNode ''README.md'' File None []]"

definition ex_state :: builder_state where
  "ex_state =
     \<lparr>filesMap = \<lparr>oid = 0, entries = [(''old.txt'', ''x''), (''src/a.js'', ''v0'')]\<rparr>,
      next_oid = 1,
      prevLastReceivedFileRef = None,
      prevLastDeletedPathRef = None,
      prevLastRenamedFileRef = None\<rparr>"

text \<open>
  An empty map; the event \<^verbatim>\<open>Updated{path: "a.txt", content: ""}\<close> for an empty file; the event
  \<^verbatim>\<open>Renamed{oldPath: "a.txt", newPath: "b.txt"}\<close>.
\<close>

definition ex_empty_map_state :: builder_state where
  "ex_empty_map_state =
     \<lparr>filesMap = \<lparr>oid = 0, entries = []\<rparr>,
      next_oid = 1,
      prevLastReceivedFileRef = None,
      prevLastDeletedPathRef = None,
      prevLastRenamedFileRef = None\<rparr>"

definition ex_empty_file :: receivedFile where
  "ex_empty_file = ReceivedFile 5 ''a.txt'' []"

definition ex_rename :: renamedFile where
  "ex_rename = RenamedFile 7 ''a.txt'' ''b.txt''"


section \<open>The preview container (WebContainerPreview)\<close>

text \<open>
  The sources hold two variants of the component \<^verbatim>\<open>WebContainerPreview\<close> (the files
  \<^verbatim>\<open>part_002\<close> and \<^verbatim>\<open>part_003\<close>). They run the same bring-up sequence and the same file sync;
  they differ in how process output is scanned (\<^verbatim>\<open>scanForErrors\<close> in the first,
  \<^verbatim>\<open>processLog\<close> in the second), in the extra refs of the second, and in the \<^verbatim>\<open>catch\<close>
  block of the bring-up, which calls \<^verbatim>\<open>scanForErrors\<close> in the first variant only.
\<close>

datatype variant = ScanForErrors | ProcessLog

subsection \<open>Strings\<close>

text \<open>\<^verbatim>\<open>text.startsWith(pat)\<close> and \<^verbatim>\<open>text.includes(pat)\<close>\<close>

fun starts_with :: "string \<Rightarrow> string \<Rightarrow> bool" where
  "starts_with [] text = True"
| "starts_with (p # ps) [] = False"
| "starts_with (p # ps) (c # cs) = (p = c \<and> starts_with ps cs)"

fun str_includes :: "string \<Rightarrow> string \<Rightarrow> bool" where
  "str_includes pat [] = (pat = [])"
| "str_includes pat (c # cs) = (starts_with pat (c # cs) \<or> str_includes pat cs)"



text \<open>
  A number inside a template string (\<^verbatim>\<open>`... ${installExitCode}`\<close>) is rendered in decimal.
\<close>

definition digit_char :: "nat \<Rightarrow> char" where
  "digit_char d = char_of (of_char CHR ''0'' + d)"

fun decimal :: "nat \<Rightarrow> string" where
  "decimal n =
     (if n div 10 = 0 then [digit_char n]
      else decimal (n div 10) @ [digit_char (n mod 10)])"

declare decimal.simps [simp del]

definition number_toString :: "int \<Rightarrow> string" where
  "number_toString i = (if 0 \<le> i then decimal (nat i) else CHR ''-'' # decimal (nat (- i)))"

subsection \<open>The failure markers\<close>

text \<open>
  \<^verbatim>\<open>errorRegex\<close> is an alternation of literal markers and one pattern, matched anywhere in
  the text and without regard to case (flag \<^verbatim>\<open>i\<close>). All pattern characters are ASCII, so
  only ASCII letters fold.
\<close>

definition lower :: "char \<Rightarrow> char" where
  "lower c = (let n = (of_char c :: nat) in if 65 \<le> n \<and> n \<le> 90 then char_of (n + 32) else c)"

definition is_digit :: "char \<Rightarrow> bool" where
  "is_digit c = (let n = (of_char c :: nat) in 48 \<le> n \<and> n \<le> 57)"

definition line_terminator :: "char \<Rightarrow> bool" where
  "line_terminator c = (c = CHR 0x0A \<or> c = CHR 0x0D)"

text \<open>
  The rest of \<^verbatim>\<open>node_modules\/.*\.js:\d+\<close> after \<^verbatim>\<open>node_modules/\<close>: \<^verbatim>\<open>.*\<close> stays within the
  line, then \<^verbatim>\<open>.js:\<close> and at least one digit follow.
\<close>

fun js_frame_rest :: "string \<Rightarrow> bool" where
  "js_frame_rest [] = False"
| "js_frame_rest (c # cs) =
     ((starts_with ''.js:'' (c # cs) \<and> (case drop 4 (c # cs) of d # _ \<Rightarrow> is_digit d | [] \<Rightarrow> False))
      \<or> (\<not> line_terminator c \<and> js_frame_rest cs))"

fun node_modules_frame :: "string \<Rightarrow> bool" where
  "node_modules_frame [] = False"
| "node_modules_frame (c # cs) =
     ((starts_with ''node_modules/'' (c # cs) \<and> js_frame_rest (drop 13 (c # cs)))
      \<or> node_modules_frame cs)"

text \<open>\<^verbatim>\<open>errorRegex.current.test(text)\<close>\<close>

definition errorRegex_test :: "string \<Rightarrow> bool" where
  "errorRegex_test text =
     (let t = map lower text in
        str_includes ''error:'' t \<or> str_includes ''exception:'' t \<or> str_includes ''failed:'' t \<or>
        str_includes ''fatal:'' t \<or> str_includes ''syntax failure'' t \<or> str_includes ''build failed'' t \<or>
        str_includes ''err_'' t \<or> node_modules_frame t \<or> str_includes ''module not found'' t \<or>
        str_includes ''cannot find module'' t \<or> str_includes ''uncaught'' t \<or>
        str_includes ''referenced by the type'' t)"

subsection \<open>The output scanner\<close>

text \<open>
  The refs \<^verbatim>\<open>errorBuffer\<close> and \<^verbatim>\<open>errorTimeout\<close>, and the strings handed to
  \<^verbatim>\<open>onTerminalError\<close> so far. A pending timeout is the number of milliseconds left until
  it fires, with the \<^verbatim>\<open>onTerminalError\<close> its callback captured (present or not); a timeout
  that has fired or was never set is \<open>None\<close>.
\<close>

record timeout =
  remaining :: nat
  callback :: bool

record scanner =
  errorBuffer :: string
  errorTimeout :: "timeout option"
  reported :: "string list"

text \<open>The buffer after appending: more than 2000 characters are cut to the last 1000.\<close>

definition append_bounded :: "string \<Rightarrow> string \<Rightarrow> string" where
  "append_bounded buffer text =
     (let b = buffer @ text in if length b > 2000 then drop (length b - 1000) b else b)"

text \<open>\<^verbatim>\<open>clearTimeout\<close> of the pending timeout, then \<^verbatim>\<open>setTimeout(..., 1000)\<close>.\<close>

definition restart_timeout :: "bool \<Rightarrow> scanner \<Rightarrow> scanner" where
  "restart_timeout onTerminalError sc =
     sc\<lparr>errorTimeout := Some \<lparr>remaining = 1000, callback = onTerminalError\<rparr>\<rparr>"

text \<open>\<^verbatim>\<open>scanForErrors\<close> of the first variant (lines 126-144).\<close>

definition scanForErrors :: "bool \<Rightarrow> string \<Rightarrow> scanner \<Rightarrow> scanner" where
  "scanForErrors onTerminalError text sc =
     (let sc1 = sc\<lparr>errorBuffer := append_bounded (errorBuffer sc) text\<rparr>
      in if errorRegex_test text \<or> errorRegex_test (errorBuffer sc1)
         then restart_timeout onTerminalError sc1
         else sc1)"

text \<open>
  The error handling of \<^verbatim>\<open>processLog\<close> of the second variant (lines 112-126). The status
  section of \<^verbatim>\<open>processLog\<close> above it (lines 52-110) reads the chunk and
  \<^verbatim>\<open>initialLoadCompleteRef\<close> and writes \<^verbatim>\<open>currentStep\<close>, \<^verbatim>\<open>compileMessage\<close>,
  \<^verbatim>\<open>initialLoadCompleteRef\<close> and timers of its own; it touches nothing of the scanner.
\<close>

definition processLog :: "bool \<Rightarrow> string \<Rightarrow> scanner \<Rightarrow> scanner" where
  "processLog onTerminalError data sc =
     (if errorRegex_test data
      then restart_timeout onTerminalError
             (sc\<lparr>errorBuffer := append_bounded (errorBuffer sc) data\<rparr>)
      else sc)"

definition scan_chunk :: "variant \<Rightarrow> bool \<Rightarrow> string \<Rightarrow> scanner \<Rightarrow> scanner" where
  "scan_chunk v onTerminalError text sc =
     (case v of
        ScanForErrors \<Rightarrow> scanForErrors onTerminalError text sc
      | ProcessLog \<Rightarrow> processLog onTerminalError text sc)"

text \<open>
  \<open>d\<close> milliseconds pass with no output. A pending timeout that is due fires: its callback
  hands the buffer to \<^verbatim>\<open>onTerminalError\<close> and empties it, if \<^verbatim>\<open>onTerminalError\<close> was given.
\<close>

definition elapse :: "nat \<Rightarrow> scanner \<Rightarrow> scanner" where
  "elapse d sc =
     (case errorTimeout sc of
        None \<Rightarrow> sc
      | Some t \<Rightarrow>
          if remaining t \<le> d then
            (if callback t
             then sc\<lparr>errorBuffer := [], errorTimeout := None,
                     reported := reported sc @ [errorBuffer sc]\<rparr>
             else sc\<lparr>errorTimeout := None\<rparr>)
          else sc\<lparr>errorTimeout := Some (t\<lparr>remaining := remaining t - d\<rparr>)\<rparr>)"

definition initial_scanner :: scanner where
  "initial_scanner = \<lparr>errorBuffer = [], errorTimeout = None, reported = []\<rparr>"

subsection \<open>Props, container calls and component state\<close>

record props =
  files :: files
  webContainerInstance :: bool
  serverUrl :: string
  isProduction :: bool
  isSetupComplete :: bool
  onTerminalError :: bool

text \<open>
  The calls made on the WebContainer instance. \<^verbatim>\<open>mount\<close> receives the result of
  \<^verbatim>\<open>transformFlatMapToWebContainer\<close>, of type \<open>'t\<close> here.
\<close>

datatype 't call =
    ReadFile string
  | Mount 't
  | Readdir string
  | Spawn string "string list"
  | Rm string
  | Mkdir string
  | WriteFile string string

datatype step = Mounting | Installing | Building | Starting | Compiling | Ready

text \<open>
  The refs and state of one component instance, the calls it has made on the container
  (in order), what it has printed with \<^verbatim>\<open>console.error\<close>, and whether it has called
  \<^verbatim>\<open>setIsSetupComplete(true)\<close>. The refs \<^verbatim>\<open>initialLoadCompleteRef\<close> and \<^verbatim>\<open>devProcessRef\<close>
  and the state \<^verbatim>\<open>compileMessage\<close> exist in the second variant only.
\<close>

record 't preview_state =
  setupStartedRef :: bool
  initialLoadCompleteRef :: bool
  devProcessRef :: bool
  setupError :: "string option"
  currentStep :: step
  compileMessage :: string
  setupCompleteSet :: bool
  scan :: scanner
  prevFilesRef :: files
  calls :: "'t call list"
  console_errors :: "string list"

text \<open>The state after the first render with the map \<open>fs\<close>.\<close>

definition initial_state :: "files \<Rightarrow> 't preview_state" where
  "initial_state fs =
     \<lparr>setupStartedRef = False, initialLoadCompleteRef = False, devProcessRef = False,
      setupError = None, currentStep = Mounting, compileMessage = [],
      setupCompleteSet = False, scan = initial_scanner, prevFilesRef = fs,
      calls = [], console_errors = []\<rparr>"

subsection \<open>Incremental sync (the file sync effect)\<close>

text \<open>
  The two loops that compute the delta (lines 305-320 of the first variant, 272-285 of the
  second).
\<close>

definition changedFiles :: "files \<Rightarrow> files \<Rightarrow> files" where
  "changedFiles fs prev =
     fold (\<lambda>path changed.
             if lookup fs path \<noteq> lookup prev path
             then (case lookup fs path of Some c \<Rightarrow> assign path c changed | None \<Rightarrow> changed)
             else changed)
          (keys fs) []"

definition deletedFiles :: "files \<Rightarrow> files \<Rightarrow> string list" where
  "deletedFiles fs prev = filter (\<lambda>path. \<not> has_key path fs) (keys prev)"






subsection \<open>Bring-up (the setup effect)\<close>

text \<open>
  \<^verbatim>\<open>setupContainer\<close> is an \<^verbatim>\<open>async\<close> function: it runs without interruption up to an
  \<^verbatim>\<open>await\<close>, and continues when the awaited promise settles. An attempt that is suspended
  is described by the \<^verbatim>\<open>await\<close> it is suspended at and by the props its closure captured.
  The \<^verbatim>\<open>await\<close>s, with their lines in the first and in the second variant:
  \<^item> \<open>AwaitReadFile\<close>: \<^verbatim>\<open>fs.readFile('/package.json')\<close> (176, 156), inside its own \<^verbatim>\<open>try\<close>;
  \<^item> \<open>AwaitMount\<close>: \<^verbatim>\<open>mount(webContainerFiles)\<close> (187, 164);
  \<^item> \<open>AwaitReaddir\<close>: \<^verbatim>\<open>fs.readdir('/', { withFileTypes: true })\<close> (196, 173), inside its own
    \<^verbatim>\<open>try\<close>;
  \<^item> \<open>AwaitSpawnInstall\<close>: \<^verbatim>\<open>spawn("pnpm", ["install", "--prefer-offline"])\<close> (211, 186);
  \<^item> \<open>AwaitInstallExit\<close>: \<^verbatim>\<open>installProcess.exit\<close> (226, 199);
  \<^item> \<open>AwaitSpawnBuild\<close>: \<^verbatim>\<open>spawn("pnpm", ["run", "build"])\<close> (240, 213);
  \<^item> \<open>AwaitBuildExit\<close>: \<^verbatim>\<open>buildProcess.exit\<close> (250, 223);
  \<^item> \<open>AwaitSpawnServe\<close>: \<^verbatim>\<open>spawn("pnpm", ["dlx", "serve", "dist"])\<close> (257, 229);
  \<^item> \<open>AwaitSpawnDev\<close>: \<^verbatim>\<open>spawn("pnpm", ["run", "dev"])\<close> (271, 241).
\<close>

datatype pc =
    AwaitReadFile
  | AwaitMount
  | AwaitReaddir
  | AwaitSpawnInstall
  | AwaitInstallExit
  | AwaitSpawnBuild
  | AwaitBuildExit
  | AwaitSpawnServe
  | AwaitSpawnDev

record dirent =
  name :: string
  isDirectory :: bool

text \<open>
  How an awaited promise settles: resolved (with no value of interest, with the directory
  listing, with the exit code), or rejected with an error whose message (or string
  conversion) is given.
\<close>

datatype response =
    Resolved
  | ResolvedEntries "dirent list"
  | ResolvedExit int
  | Rejected string

text \<open>
  From the call of \<^verbatim>\<open>setupContainer\<close> to its first \<^verbatim>\<open>await\<close>, or to its \<^verbatim>\<open>return\<close>. The
  result is the new state and, if the attempt is now suspended, where.
\<close>

definition setupContainer_start ::
  "variant \<Rightarrow> props \<Rightarrow> 't preview_state \<Rightarrow> 't preview_state \<times> pc option" where
  "setupContainer_start v p s =
     (if \<not> webContainerInstance p \<or> isSetupComplete p \<or> setupStartedRef s then (s, None)
      else if serverUrl p \<noteq> [] then
        (s\<lparr>setupCompleteSet := True, currentStep := Ready,
           initialLoadCompleteRef := (v = ProcessLog \<or> initialLoadCompleteRef s)\<rparr>, None)
      else if \<not> truthy (lookup (files p) ''package.json'') \<and>
              \<not> truthy (lookup (files p) ''/package.json'') then (s, None)
      else
        (s\<lparr>setupStartedRef := True,
           initialLoadCompleteRef := (v \<noteq> ProcessLog \<and> initialLoadCompleteRef s),
           setupError := None,
           currentStep := Mounting,
           calls := calls s @ [ReadFile ''/package.json'']\<rparr>,
         Some AwaitReadFile))"

text \<open>The \<^verbatim>\<open>catch\<close> block of the attempt.\<close>

definition catch_setup ::
  "variant \<Rightarrow> props \<Rightarrow> string \<Rightarrow> 't preview_state \<Rightarrow> 't preview_state \<times> pc option" where
  "catch_setup v p errorMessage s =
     (s\<lparr>console_errors := console_errors s @ [''Error setting up container: '' @ errorMessage],
        setupError := Some errorMessage,
        scan := (if v = ScanForErrors
                 then scanForErrors (onTerminalError p) (''Fatal Error: '' @ errorMessage) (scan s)
                 else scan s),
        setupStartedRef := False\<rparr>,
      None)"

text \<open>The stretches of straight-line code between two \<^verbatim>\<open>await\<close>s.\<close>

definition check_node_modules :: "'t preview_state \<Rightarrow> 't preview_state \<times> pc option" where
  "check_node_modules s = (s\<lparr>calls := calls s @ [Readdir ''/'']\<rparr>, Some AwaitReaddir)"

definition install_dependencies :: "'t preview_state \<Rightarrow> 't preview_state \<times> pc option" where
  "install_dependencies s =
     (s\<lparr>currentStep := Installing,
        calls := calls s @ [Spawn ''pnpm'' [''install'', ''--prefer-offline'']]\<rparr>,
      Some AwaitSpawnInstall)"

definition build_or_start :: "props \<Rightarrow> 't preview_state \<Rightarrow> 't preview_state \<times> pc option" where
  "build_or_start p s =
     (if isProduction p
      then (s\<lparr>currentStep := Building, calls := calls s @ [Spawn ''pnpm'' [''run'', ''build'']]\<rparr>,
            Some AwaitSpawnBuild)
      else (s\<lparr>currentStep := Starting, calls := calls s @ [Spawn ''pnpm'' [''run'', ''dev'']]\<rparr>,
            Some AwaitSpawnDev))"

definition setup_done :: "'t preview_state \<Rightarrow> 't preview_state \<times> pc option" where
  "setup_done s = (s\<lparr>setupCompleteSet := True, currentStep := Ready\<rparr>, None)"

text \<open>
  The attempt suspended at \<open>pc\<close> continues when its promise settles with the response
  \<open>r\<close>, up to the next \<^verbatim>\<open>await\<close> or to its end. \<open>None\<close>: the promise awaited at \<open>pc\<close>
  cannot settle with \<open>r\<close>. \<open>transform\<close> stands for \<^verbatim>\<open>transformFlatMapToWebContainer\<close>,
  which is not among the sources and is taken as a parameter: a function from the flat map
  to the nested structure that \<^verbatim>\<open>mount\<close> expects.
\<close>

fun setupContainer_resume ::
  "variant \<Rightarrow> (files \<Rightarrow> 't) \<Rightarrow> props \<Rightarrow> pc \<Rightarrow> response \<Rightarrow> 't preview_state \<Rightarrow>
     ('t preview_state \<times> pc option) option"
where
  "setupContainer_resume v transform p AwaitReadFile Resolved s = Some (check_node_modules s)"
| "setupContainer_resume v transform p AwaitReadFile (Rejected e) s =
     Some (s\<lparr>calls := calls s @ [Mount (transform (files p))]\<rparr>, Some AwaitMount)"
| "setupContainer_resume v transform p AwaitMount Resolved s = Some (check_node_modules s)"
| "setupContainer_resume v transform p AwaitReaddir (ResolvedEntries dir) s =
     Some (if list_ex (\<lambda>entry. name entry = ''node_modules'' \<and> isDirectory entry) dir
           then build_or_start p s
           else install_dependencies s)"
| "setupContainer_resume v transform p AwaitReaddir (Rejected e) s =
     Some (install_dependencies
             (s\<lparr>console_errors := console_errors s @ [''Error checking node_modules: '' @ e]\<rparr>))"
| "setupContainer_resume v transform p AwaitSpawnInstall Resolved s =
     Some (s, Some AwaitInstallExit)"
| "setupContainer_resume v transform p AwaitInstallExit (ResolvedExit installExitCode) s =
     Some (if installExitCode \<noteq> 0
           then catch_setup v p
                  (''Failed to install dependencies. Exit code: '' @ number_toString installExitCode) s
           else build_or_start p s)"
| "setupContainer_resume v transform p AwaitSpawnBuild Resolved s =
     Some (s, Some AwaitBuildExit)"
| "setupContainer_resume v transform p AwaitBuildExit (ResolvedExit buildExitCode) s =
     Some (if buildExitCode \<noteq> 0
           then catch_setup v p
                  (''Build failed with exit code: '' @ number_toString buildExitCode) s
           else (s\<lparr>calls := calls s @ [Spawn ''pnpm'' [''dlx'', ''serve'', ''dist'']]\<rparr>,
                 Some AwaitSpawnServe))"
| "setupContainer_resume v transform p AwaitSpawnServe Resolved s = Some (setup_done s)"
| "setupContainer_resume v transform p AwaitSpawnDev Resolved s =
     Some (setup_done (if v = ProcessLog then s\<lparr>devProcessRef := True\<rparr> else s))"
| "setupContainer_resume v transform p pc (Rejected e) s = Some (catch_setup v p e s)"
| "setupContainer_resume v transform p pc r s = None"

text \<open>
  One attempt fed the responses of the container in order, from a suspended or finished
  attempt. A response that does not fit the pending \<^verbatim>\<open>await\<close> is skipped.
\<close>

fun run_attempt ::
  "variant \<Rightarrow> (files \<Rightarrow> 't) \<Rightarrow> props \<Rightarrow> response list \<Rightarrow> 't preview_state \<times> pc option \<Rightarrow>
     't preview_state \<times> pc option"
where
  "run_attempt v transform p [] c = c"
| "run_attempt v transform p (r # rs) (s, None) = (s, None)"
| "run_attempt v transform p (r # rs) (s, Some pc) =
     (case setupContainer_resume v transform p pc r s of
        None \<Rightarrow> run_attempt v transform p rs (s, Some pc)
      | Some c \<Rightarrow> run_attempt v transform p rs c)"

subsection \<open>Triggers and suspended attempts interleaved\<close>

text \<open>
  The effect calls \<^verbatim>\<open>setupContainer\<close> on every change of its dependencies, also while
  earlier calls are suspended. The component together with its suspended attempts:
\<close>

record 't system =
  component :: "'t preview_state"
  inflight :: "(pc \<times> props) list"

text \<open>
  What can happen next: the effect runs with the props of the current render, or the
  promise awaited by the suspended attempt number \<open>i\<close> settles.
\<close>

datatype event = Trigger props | Settle nat response

definition sys_step :: "variant \<Rightarrow> (files \<Rightarrow> 't) \<Rightarrow> event \<Rightarrow> 't system \<Rightarrow> 't system" where
  "sys_step v transform ev sys =
     (case ev of
        Trigger p \<Rightarrow>
          (case setupContainer_start v p (component sys) of
             (s, None) \<Rightarrow> sys\<lparr>component := s\<rparr>
           | (s, Some pc) \<Rightarrow> sys\<lparr>component := s, inflight := inflight sys @ [(pc, p)]\<rparr>)
      | Settle i r \<Rightarrow>
          if i < length (inflight sys) then
            (case setupContainer_resume v transform (snd (inflight sys ! i))
                    (fst (inflight sys ! i)) r (component sys) of
               None \<Rightarrow> sys
             | Some (s, None) \<Rightarrow>
                 sys\<lparr>component := s,
                     inflight := take i (inflight sys) @ drop (Suc i) (inflight sys)\<rparr>
             | Some (s, Some pc) \<Rightarrow>
                 sys\<lparr>component := s,
                     inflight := (inflight sys)[i := (pc, snd (inflight sys ! i))]\<rparr>)
          else sys)"

definition exec :: "variant \<Rightarrow> (files \<Rightarrow> 't) \<Rightarrow> event list \<Rightarrow> 't system \<Rightarrow> 't system" where
  "exec v transform evs sys = fold (sys_step v transform) evs sys"

definition initial_system :: "files \<Rightarrow> 't system" where
  "initial_system fs = \<lparr>component = initial_state fs, inflight = []\<rparr>"


subsection \<open>Predicates used in the verification\<close>

text \<open>At most one attempt is suspended, and while one is, the flag \<^verbatim>\<open>setupStartedRef\<close> is set.\<close>

definition at_most_one_inflight :: "'t system \<Rightarrow> bool" where
  "at_most_one_inflight sys =
     (inflight sys = [] \<or> (length (inflight sys) = 1 \<and> setupStartedRef (component sys)))"

text \<open>The attempt has passed the decision whether to install.\<close>

definition past_install :: "pc \<Rightarrow> bool" where
  "past_install pc = (pc \<noteq> AwaitReadFile \<and> pc \<noteq> AwaitMount \<and> pc \<noteq> AwaitReaddir)"


subsection \<open>Example inputs of the preview container\<close>



text \<open>A container that is present and not set up, with the manifest in the map.\<close>

definition ex_setup_props :: props where
  "ex_setup_props =
     \<lparr>files = [(''package.json'', ''{}'')],
      webContainerInstance = True,
      serverUrl = [],
      isProduction = False,
      isSetupComplete = False,
      onTerminalError = True\<rparr>"

definition ex_node_modules :: "dirent list" where
  "ex_node_modules =
     [\<lparr>name = ''package.json'', isDirectory = False\<rparr>,
      \<lparr>name = ''node_modules'', isDirectory = True\<rparr>]"

text \<open>The effect runs twice in a row, the read of the manifest fails, the effect runs again, the
  mount succeeds.\<close>

definition ex_events :: "event list" where
  "ex_events =
     [Trigger ex_setup_props, Trigger ex_setup_props, Settle 0 (Rejected ''ENOENT''),
      Trigger ex_setup_props, Settle 0 Resolved]"

text \<open>The component right after the effect has started an attempt.\<close>

definition ex_started :: "files preview_state" where
  "ex_started = fst (setupContainer_start ScanForErrors ex_setup_props (initial_state []))"


section \<open>Verification: the Reconciled File Map\<close>

subsection \<open>Facts about object spread\<close>

lemma spread_Cons: "spread a (x # b) = spread (assign (fst x) (snd x) a) b"
  by (simp add: spread_def)

lemma spread_fixed: "\<forall>kv\<in>set b. map_of a (fst kv) = Some (snd kv) \<Longrightarrow> spread a b = a"
  by (induction b arbitrary: a) (auto simp: spread_def assign_def AList.update_triv)

lemma map_of_spread: "map_of (spread a b) = map_of a ++ map_of (rev b)"
proof (induction b arbitrary: a)
  case Nil
  then show ?case by (simp add: spread_def)
next
  case (Cons x b)
  have "map_of (spread a (x # b)) = map_of (assign (fst x) (snd x) a) ++ map_of (rev b)"
    unfolding spread_Cons by (rule Cons.IH)
  also have "map_of (assign (fst x) (snd x) a) = map_of a ++ map_of [x]"
    by (cases x) (simp add: assign_def AList.update_conv')
  finally show ?case by (simp only: rev.simps map_of_append map_add_assoc)
qed

lemma keys_spread_mono: "set (keys a) \<subseteq> set (keys (spread a b))"
proof (induction b arbitrary: a)
  case Nil
  show ?case by (simp add: spread_def)
next
  case (Cons x b)
  have "set (keys a) \<subseteq> set (keys (assign (fst x) (snd x) a))"
    by (auto simp: assign_def keys_def AList.update_keys)
  also have "\<dots> \<subseteq> set (keys (spread (assign (fst x) (snd x) a) b))"
    by (rule Cons.IH)
  finally show ?case by (simp add: spread_def)
qed

lemma map_of_rev_distinct: "distinct (map fst xs) \<Longrightarrow> map_of (rev xs) = map_of xs"
  by (induction xs)
     (auto simp: map_add_def fun_eq_iff split: option.splits dest: map_of_SomeD
           intro: rev_image_eqI)

lemma lookup_spread:
  "distinct (map fst b) \<Longrightarrow>
   lookup (spread a b) k = (case lookup b k of Some c \<Rightarrow> Some c | None \<Rightarrow> lookup a k)"
  by (simp add: lookup_def map_of_spread map_of_rev_distinct map_add_def split: option.splits)

lemma spread_idem: "distinct (map fst b) \<Longrightarrow> spread (spread a b) b = spread a b"
proof (rule spread_fixed, rule ballI)
  fix kv
  assume d: "distinct (map fst b)" and kv: "kv \<in> set b"
  then have "map_of b (fst kv) = Some (snd kv)" by (cases kv) simp
  then show "map_of (spread a b) (fst kv) = Some (snd kv)"
    using lookup_spread[OF d, of a "fst kv"] by (simp add: lookup_def)
qed

subsection \<open>Facts about the traversal\<close>

lemma distinct_traverse_node:
  "distinct (map fst nf) \<Longrightarrow> distinct (map fst (traverse_node n nf))"
proof (induction n nf rule: traverse_node.induct)
  case (1 p t c ch newFiles)
  let ?nf = "(if t = File \<and> c \<noteq> None \<and> truthy c then assign p (the c) newFiles else newFiles)"
  have d: "distinct (map fst ?nf)"
    using 1(2) by (simp add: assign_def AList.distinct_update)
  have "set xs \<subseteq> set ch \<Longrightarrow> distinct (map fst nf) \<Longrightarrow>
        distinct (map fst (fold traverse_node xs nf))" for xs nf
    by (induction xs arbitrary: nf) (auto intro: 1(1))
  from this[OF subset_refl d] show ?case by simp
qed

lemma distinct_traverse: "distinct (map fst (traverse t []))"
proof -
  have "distinct (map fst nf) \<Longrightarrow> distinct (map fst (fold traverse_node xs nf))" for xs nf
    by (induction xs arbitrary: nf) (auto intro: distinct_traverse_node)
  then show ?thesis by (simp add: traverse_def)
qed

text \<open>A key of \<^verbatim>\<open>newFiles\<close> was written by a file node with non-empty content.\<close>

lemma traverse_node_keys:
  "has_key k (traverse_node n nf) \<Longrightarrow>
   has_key k nf \<or>
   (\<exists>m\<in>set (nodes_of n). path m = k \<and> ntype m = File \<and> truthy (content m))"
proof (induction n nf rule: traverse_node.induct)
  case (1 p t c ch newFiles)
  let ?nf = "(if t = File \<and> c \<noteq> None \<and> truthy c then assign p (the c) newFiles else newFiles)"
  have f: "has_key k (fold traverse_node xs nf) \<Longrightarrow> set xs \<subseteq> set ch \<Longrightarrow>
     has_key k nf \<or>
     (\<exists>m\<in>set (concat (map nodes_of xs)). path m = k \<and> ntype m = File \<and> truthy (content m))"
    for xs nf
  proof (induction xs arbitrary: nf)
    case Nil
    then show ?case by simp
  next
    case (Cons x xs)
    from Cons.prems have "has_key k (fold traverse_node xs (traverse_node x nf))" by simp
    from Cons.IH[OF this] Cons.prems(2)
    have "has_key k (traverse_node x nf) \<or>
      (\<exists>m\<in>set (concat (map nodes_of xs)). path m = k \<and> ntype m = File \<and> truthy (content m))"
      by simp
    moreover have "has_key k (traverse_node x nf) \<Longrightarrow>
      has_key k nf \<or>
      (\<exists>m\<in>set (nodes_of x). path m = k \<and> ntype m = File \<and> truthy (content m))"
      using 1(1)[of x nf] Cons.prems(2) by simp
    ultimately show ?case by auto
  qed
  from 1(2) have "has_key k (fold traverse_node ch ?nf)" by simp
  from f[OF this subset_refl]
  have "has_key k ?nf \<or>
    (\<exists>m\<in>set (concat (map nodes_of ch)). path m = k \<and> ntype m = File \<and> truthy (content m))" .
  moreover have "has_key k ?nf \<Longrightarrow> has_key k newFiles \<or> (p = k \<and> t = File \<and> truthy c)"
    by (auto simp: has_key_def lookup_def assign_def AList.update_conv' split: if_splits)
  ultimately show ?case by auto
qed

lemma traverse_keys:
  "has_key k (traverse t []) \<Longrightarrow>
   \<exists>m\<in>set (all_nodes t). path m = k \<and> ntype m = File \<and> truthy (content m)"
proof -
  have "has_key k (fold traverse_node xs nf) \<Longrightarrow>
     has_key k nf \<or>
     (\<exists>m\<in>set (concat (map nodes_of xs)). path m = k \<and> ntype m = File \<and> truthy (content m))"
    for xs nf
  proof (induction xs arbitrary: nf)
    case Nil
    then show ?case by simp
  next
    case (Cons x xs)
    from Cons.prems have "has_key k (fold traverse_node xs (traverse_node x nf))" by simp
    from Cons.IH[OF this] traverse_node_keys[of k x nf] show ?case by auto
  qed
  from this[of t "[]"] show "has_key k (traverse t []) \<Longrightarrow> ?thesis"
    by (auto simp: traverse_def all_nodes_def has_key_def lookup_def)
qed

subsection \<open>The snapshot effect\<close>

lemma merge_filesMap:
  "filesMap (fileTreeMergeEffect t s) =
     (if t \<noteq> [] \<and>
         \<not> (length (keys (entries (filesMap s))) =
              length (keys (spread (entries (filesMap s)) (traverse t []))) \<and>
            list_all (\<lambda>k. lookup (entries (filesMap s)) k =
                           lookup (spread (entries (filesMap s)) (traverse t [])) k)
              (keys (entries (filesMap s))))
      then \<lparr>oid = next_oid s, entries = spread (entries (filesMap s)) (traverse t [])\<rparr>
      else filesMap s)"
  by (simp add: fileTreeMergeEffect_def Let_def)

lemma merge_next_oid:
  "next_oid (fileTreeMergeEffect t s) = (if t \<noteq> [] then Suc (next_oid s) else next_oid s)"
  by (simp add: fileTreeMergeEffect_def Let_def)

lemma merge_again:
  "filesMap (fileTreeMergeEffect t (fileTreeMergeEffect t s)) = filesMap (fileTreeMergeEffect t s)"
proof -
  let ?nf = "traverse t []"
  let ?s1 = "fileTreeMergeEffect t s"
  let ?chk = "\<lambda>E. length (keys E) = length (keys (spread E ?nf)) \<and>
                 list_all (\<lambda>k. lookup E k = lookup (spread E ?nf) k) (keys E)"
  have d: "distinct (map fst ?nf)" by (rule distinct_traverse)
  show ?thesis
  proof (cases "t \<noteq> [] \<and> \<not> ?chk (entries (filesMap s))")
    case False
    then have "filesMap ?s1 = filesMap s"
      by (simp only: merge_filesMap[of t s] if_False)
    with False show ?thesis
      by (simp only: merge_filesMap[of t ?s1] if_False)
  next
    case True
    then have e: "entries (filesMap ?s1) = spread (entries (filesMap s)) ?nf"
      by (simp add: merge_filesMap[of t s])
    have "spread (entries (filesMap ?s1)) ?nf = entries (filesMap ?s1)"
      unfolding e by (rule spread_idem[OF d])
    then have "?chk (entries (filesMap ?s1))" by (simp add: list_all_iff)
    then show ?thesis
      by (simp only: merge_filesMap[of t ?s1] simp_thms if_False)
  qed
qed

text \<open>
  Claim C2 (idempotence of the full-snapshot merge). Running the snapshot effect a second
  time on the same tree leaves \<^verbatim>\<open>filesMap\<close> holding the very object it held after the first
  run: the same entries in the same order, and the same identity, which is older than
  every identity the second run allocates. The updater of the second run therefore
  returns \<^verbatim>\<open>prev\<close>, React sees no state change, and no effect depending on the map
  (the file sync of the preview among them) runs again.
\<close>

theorem snapshot_merge_idempotent:
  assumes "oid (filesMap s) < next_oid s"
  shows "filesMap (fileTreeMergeEffect t (fileTreeMergeEffect t s)) =
           filesMap (fileTreeMergeEffect t s) \<and>
         oid (filesMap (fileTreeMergeEffect t (fileTreeMergeEffect t s))) <
           next_oid (fileTreeMergeEffect t s)"
proof -
  have "oid (filesMap (fileTreeMergeEffect t s)) < next_oid (fileTreeMergeEffect t s)"
    using assms by (simp add: merge_filesMap merge_next_oid)
  then show ?thesis by (simp add: merge_again)
qed

theorem snapshot_merge_idempotent_witness:
  "oid (filesMap ex_state) < next_oid ex_state \<and>
   filesMap (fileTreeMergeEffect ex_tree (fileTreeMergeEffect ex_tree ex_state)) =
     \<lparr>oid = 1,
       entries = [(''old.txt'', ''x''), (''src/a.js'', ''v1''), (''package.json'', ''{}'')]\<rparr> \<and>
   next_oid (fileTreeMergeEffect ex_tree ex_state) = 2"
proof -
  have h: "oid (filesMap ex_state) < next_oid ex_state"
    by (simp add: ex_state_def)
  have e: "filesMap (fileTreeMergeEffect ex_tree ex_state) =
      \<lparr>oid = 1,
        entries = [(''old.txt'', ''x''), (''src/a.js'', ''v1''), (''package.json'', ''{}'')]\<rparr>"
    by code_simp
  have n: "next_oid (fileTreeMergeEffect ex_tree ex_state) = 2"
    by code_simp
  from snapshot_merge_idempotent[OF h, of ex_tree] h e n show ?thesis by simp
qed

text \<open>
  Claim C9 (the full-snapshot merge never removes keys). A key \<open>k\<close> that the map holds
  before the snapshot effect is still held after it: with the content the snapshot
  collected for \<open>k\<close> when there is one, with its previous content otherwise. The key set
  after the effect contains the key set before it.
\<close>

theorem snapshot_merge_keeps_keys:
  assumes "lookup (entries (filesMap s)) k = Some v"
  shows "lookup (entries (filesMap (fileTreeMergeEffect t s))) k =
           (case lookup (traverse t []) k of Some c \<Rightarrow> Some c | None \<Rightarrow> Some v) \<and>
         set (keys (entries (filesMap s))) \<subseteq>
           set (keys (entries (filesMap (fileTreeMergeEffect t s))))"
proof -
  let ?nf = "traverse t []"
  let ?E = "entries (filesMap s)"
  have d: "distinct (map fst ?nf)" by (rule distinct_traverse)
  have k: "k \<in> set (keys ?E)"
    using assms by (auto simp: lookup_def keys_def dest: map_of_SomeD intro: rev_image_eqI)
  have sp: "lookup (spread ?E ?nf) k =
      (case lookup ?nf k of Some c \<Rightarrow> Some c | None \<Rightarrow> Some v)"
    using lookup_spread[OF d, of ?E k] assms by (simp split: option.splits)
  have emp: "t = [] \<Longrightarrow> lookup ?nf k = None"
    by (simp add: traverse_def lookup_def)
  have 1: "lookup (entries (filesMap (fileTreeMergeEffect t s))) k =
           (case lookup ?nf k of Some c \<Rightarrow> Some c | None \<Rightarrow> Some v)"
    using sp k assms emp by (auto simp: merge_filesMap list_all_iff)
  have 2: "set (keys ?E) \<subseteq> set (keys (entries (filesMap (fileTreeMergeEffect t s))))"
    using keys_spread_mono[of ?E ?nf] by (simp add: merge_filesMap)
  from 1 2 show ?thesis by simp
qed

theorem snapshot_merge_keeps_keys_witness:
  "lookup (entries (filesMap ex_state)) ''old.txt'' = Some ''x'' \<and>
   lookup (traverse ex_tree []) ''old.txt'' = None \<and>
   lookup (entries (filesMap (fileTreeMergeEffect ex_tree ex_state))) ''old.txt'' = Some ''x'' \<and>
   keys (entries (filesMap ex_state)) = [''old.txt'', ''src/a.js''] \<and>
   keys (entries (filesMap (fileTreeMergeEffect ex_tree ex_state))) =
     [''old.txt'', ''src/a.js'', ''package.json'']"
proof -
  have h: "lookup (entries (filesMap ex_state)) ''old.txt'' = Some ''x''"
    by code_simp
  have n: "lookup (traverse ex_tree []) ''old.txt'' = None"
    by code_simp
  have k1: "keys (entries (filesMap ex_state)) = [''old.txt'', ''src/a.js'']"
    by code_simp
  have k2: "keys (entries (filesMap (fileTreeMergeEffect ex_tree ex_state))) =
      [''old.txt'', ''src/a.js'', ''package.json'']"
    by code_simp
  from snapshot_merge_keeps_keys[OF h, of ex_tree] h n k1 k2 show ?thesis by simp
qed

text \<open>
  Claim C10 (file nodes with empty content are skipped by the snapshot merge). When every
  node of the snapshot that carries the path \<open>p\<close> has no \<^verbatim>\<open>content\<close> field or has the empty
  string as content, the traversal writes no key \<open>p\<close> into \<^verbatim>\<open>newFiles\<close>, and the map after
  the snapshot effect has at \<open>p\<close> exactly what it had before (nothing, if \<open>p\<close> was never
  received): a fetched empty file and a file not fetched yet look the same in the map.
\<close>

theorem empty_content_node_skipped:
  assumes "\<forall>n\<in>set (all_nodes t). path n = p \<longrightarrow> content n = None \<or> content n = Some []"
  shows "\<not> has_key p (traverse t []) \<and>
         lookup (entries (filesMap (fileTreeMergeEffect t s))) p =
           lookup (entries (filesMap s)) p"
proof -
  have nk: "\<not> has_key p (traverse t [])"
  proof
    assume "has_key p (traverse t [])"
    from traverse_keys[OF this] obtain m where
      "m \<in> set (all_nodes t)" "path m = p" "truthy (content m)" by blast
    with assms show False by auto
  qed
  then have "lookup (traverse t []) p = None"
    by (simp add: has_key_def)
  then have "lookup (spread (entries (filesMap s)) (traverse t [])) p =
      lookup (entries (filesMap s)) p"
    using lookup_spread[OF distinct_traverse[of t], of "entries (filesMap s)" p] by simp
  then have "lookup (entries (filesMap (fileTreeMergeEffect t s))) p =
      lookup (entries (filesMap s)) p"
    by (simp add: merge_filesMap)
  with nk show ?thesis by simp
qed

theorem empty_content_node_skipped_witness:
  "list_all (\<lambda>n. path n \<noteq> ''src/empty.js'' \<or> content n = Some []) (all_nodes ex_tree) \<and>
   FileNode ''src/empty.js'' File (Some []) [] \<in> set (all_nodes ex_tree) \<and>
   \<not> has_key ''src/empty.js'' (traverse ex_tree []) \<and>
   lookup (entries (filesMap (fileTreeMergeEffect ex_tree ex_state))) ''src/empty.js'' = None"
proof -
  have a: "list_all (\<lambda>n. path n \<noteq> ''src/empty.js'' \<or> content n = Some []) (all_nodes ex_tree)"
    by code_simp
  then have h: "\<forall>n\<in>set (all_nodes ex_tree).
      path n = ''src/empty.js'' \<longrightarrow> content n = None \<or> content n = Some []"
    by (auto simp: list_all_iff)
  have m: "FileNode ''src/empty.js'' File (Some []) [] \<in> set (all_nodes ex_tree)"
    by (simp add: all_nodes_def ex_tree_def)
  have b: "lookup (entries (filesMap ex_state)) ''src/empty.js'' = None"
    by code_simp
  from empty_content_node_skipped[OF h, of ex_state] a m b show ?thesis by simp
qed

subsection \<open>The event effect: renames\<close>

text \<open>A rename whose old path is not a key changes nothing.\<close>

lemma applyRenamed_absent:
  "lookup m (oldPath r) = None \<Longrightarrow> applyRenamed (Some r) (m, h) = (m, h)"
  by (simp add: applyRenamed_def)

text \<open>A rename whose old path holds non-empty content moves that content.\<close>

lemma applyRenamed_moves:
  assumes "lookup m (oldPath r) = Some v" and "v \<noteq> []" and "newPath r \<noteq> oldPath r"
  shows "lookup (fst (applyRenamed (Some r) (m, h))) (newPath r) = Some v \<and>
         lookup (fst (applyRenamed (Some r) (m, h))) (oldPath r) = None \<and>
         snd (applyRenamed (Some r) (m, h))"
  using assms
  by (simp add: applyRenamed_def lookup_def delete_key_def assign_def
                AList.delete_conv' AList.update_conv')

text \<open>
  Claim C3 (rename semantics), evaluated at the input where the code departs from it.
  The map is empty; the event \<^verbatim>\<open>Updated{path: "a.txt", content: ""}\<close> arrives and the effect
  stores the empty file under the key \<^verbatim>\<open>a.txt\<close>; then the event
  \<^verbatim>\<open>Renamed{oldPath: "a.txt", newPath: "b.txt"}\<close> arrives. The old path exists as a key, so
  the claim moves the (empty) content to \<^verbatim>\<open>b.txt\<close>. The guard of the rename branch tests the
  truthiness of the stored content instead of the presence of the key, the empty string
  is falsy, and the updater returns the previous object: \<^verbatim>\<open>a.txt\<close> stays, \<^verbatim>\<open>b.txt\<close> is never
  created.
\<close>

theorem rename_of_empty_file_is_dropped:
  "filesMap (filesMapSyncEffect (Some ex_empty_file) None None ex_empty_map_state) =
     \<lparr>oid = 1, entries = [(''a.txt'', [])]\<rparr> \<and>
   has_key ''a.txt''
     (entries (filesMap (filesMapSyncEffect (Some ex_empty_file) None None ex_empty_map_state))) \<and>
   filesMap (filesMapSyncEffect (Some ex_empty_file) None (Some ex_rename)
               (filesMapSyncEffect (Some ex_empty_file) None None ex_empty_map_state)) =
     \<lparr>oid = 1, entries = [(''a.txt'', [])]\<rparr>"
  by (simp add: ex_empty_map_state_def ex_empty_file_def ex_rename_def filesMapSyncEffect_def
                differs_def applyReceived_def applyRenamed_def assign_def
                has_key_def lookup_def Let_def)


section \<open>Verification: incremental file sync\<close>

lemma changed_fold:
  "lookup (fold (\<lambda>path changed.
             if lookup fs path \<noteq> lookup prev path
             then (case lookup fs path of Some c \<Rightarrow> assign path c changed | None \<Rightarrow> changed)
             else changed) ks acc) k =
   (if k \<in> set ks \<and> lookup fs k \<noteq> lookup prev k \<and> lookup fs k \<noteq> None
    then lookup fs k else lookup acc k)"
  by (induction ks arbitrary: acc)
     (auto simp: lookup_def assign_def AList.update_conv' split: option.splits)

lemma lookup_changedFiles:
  "lookup (changedFiles fs prev) k =
     (if lookup fs k \<noteq> lookup prev k then lookup fs k else None)"
proof -
  have "k \<in> set (keys fs) \<longleftrightarrow> lookup fs k \<noteq> None"
    by (simp add: keys_def lookup_def map_of_eq_None_iff)
  then show ?thesis
    unfolding changedFiles_def changed_fold by (auto simp: lookup_def)
qed

lemma set_deletedFiles:
  "k \<in> set (deletedFiles fs prev) \<longleftrightarrow> has_key k prev \<and> \<not> has_key k fs"
  by (auto simp: deletedFiles_def keys_def has_key_def lookup_def map_of_eq_None_iff)

text \<open>
  Claim C4 (delta computation). For every current map \<open>fs\<close>, last synced snapshot \<open>prev\<close>
  and path \<open>k\<close>: \<^verbatim>\<open>changedFiles\<close> holds \<open>k\<close>, with its current content, exactly when \<open>k\<close>
  is a key of \<open>fs\<close> whose content differs from what \<open>prev\<close> has for \<open>k\<close> (another content,
  or nothing); \<^verbatim>\<open>deletedFiles\<close> lists \<open>k\<close> exactly when \<open>k\<close> is a key of \<open>prev\<close> and not of
  \<open>fs\<close>. For \<open>prev = {a: "1", b: "2"}\<close> and \<open>fs = {a: "1", c: "3"}\<close> the delta is
  \<open>changed = {c: "3"}\<close>, \<open>deleted = [b]\<close>; \<open>a\<close> is in neither.
\<close>

theorem sync_delta_correct:
  "lookup (changedFiles fs prev) k =
     (if lookup fs k \<noteq> lookup prev k then lookup fs k else None) \<and>
   (k \<in> set (deletedFiles fs prev)) = (has_key k prev \<and> \<not> has_key k fs) \<and>
   changedFiles [(''a'', ''1''), (''c'', ''3'')] [(''a'', ''1''), (''b'', ''2'')] = [(''c'', ''3'')] \<and>
   deletedFiles [(''a'', ''1''), (''c'', ''3'')] [(''a'', ''1''), (''b'', ''2'')] = [''b'']"
proof -
  have 1: "changedFiles [(''a'', ''1''), (''c'', ''3'')] [(''a'', ''1''), (''b'', ''2'')] = [(''c'', ''3'')]"
    by code_simp
  have 2: "deletedFiles [(''a'', ''1''), (''c'', ''3'')] [(''a'', ''1''), (''b'', ''2'')] = [''b'']"
    by code_simp
  show ?thesis using lookup_changedFiles set_deletedFiles 1 2 by blast
qed









section \<open>Verification: the output scanner\<close>

lemma starts_with_append: "starts_with pat s \<Longrightarrow> starts_with pat (s @ t)"
  by (induction pat s rule: starts_with.induct) auto

lemma str_includes_append: "str_includes pat s \<Longrightarrow> str_includes pat (s @ t)"
proof (induction s)
  case Nil
  then show ?case by (cases t) auto
next
  case (Cons c s)
  then show ?case using starts_with_append[of pat "c # s" t] by auto
qed

lemma starts_with_length: "starts_with pat s \<Longrightarrow> length pat \<le> length s"
  by (induction pat s rule: starts_with.induct) auto

lemma js_frame_rest_append: "js_frame_rest s \<Longrightarrow> js_frame_rest (s @ t)"
proof (induction s)
  case Nil
  then show ?case by simp
next
  case (Cons c s)
  show ?case
  proof (cases "starts_with ''.js:'' (c # s) \<and> (case drop 4 (c # s) of d # _ \<Rightarrow> is_digit d | [] \<Rightarrow> False)")
    case True
    then have 1: "starts_with ''.js:'' ((c # s) @ t)" using starts_with_append by blast
    from True obtain d ds where "drop 4 (c # s) = d # ds" "is_digit d" by (auto split: list.splits)
    then have "drop 4 ((c # s) @ t) = d # ds @ t" using True by (auto dest!: starts_with_length)
    with 1 \<open>is_digit d\<close> show ?thesis by (simp del: starts_with.simps drop_Cons')
  next
    case False
    with Cons.prems have "\<not> line_terminator c" "js_frame_rest s" by auto
    with Cons.IH show ?thesis by simp
  qed
qed

lemma node_modules_frame_append: "node_modules_frame s \<Longrightarrow> node_modules_frame (s @ t)"
proof (induction s)
  case Nil
  then show ?case by simp
next
  case (Cons c s)
  show ?case
  proof (cases "starts_with ''node_modules/'' (c # s) \<and> js_frame_rest (drop 13 (c # s))")
    case True
    then have 1: "starts_with ''node_modules/'' ((c # s) @ t)" using starts_with_append by blast
    from True have "13 \<le> length (c # s)" by (auto dest!: starts_with_length)
    then have "drop 13 ((c # s) @ t) = drop 13 (c # s) @ t" by simp
    with True js_frame_rest_append[of "drop 13 (c # s)" t] have "js_frame_rest (drop 13 ((c # s) @ t))" by simp
    with 1 show ?thesis by (simp del: starts_with.simps drop_Cons')
  next
    case False
    with Cons.prems have "node_modules_frame s" by auto
    with Cons.IH show ?thesis by simp
  qed
qed

lemma errorRegex_test_append: "errorRegex_test s \<Longrightarrow> errorRegex_test (s @ t)"
  unfolding errorRegex_test_def Let_def map_append
  using str_includes_append node_modules_frame_append by blast


lemma append_bounded_short: "length (b @ t) \<le> 2000 \<Longrightarrow> append_bounded b t = b @ t"
  by (simp add: append_bounded_def Let_def)

text \<open>
  Two chunks arriving at a scanner whose buffer is empty, the first with a failure marker,
  the second within the debounce window, both together within the bound of the buffer,
  followed by a quiet period: what each variant then reports.
\<close>

lemma scanForErrors_two_chunks:
  assumes "errorRegex_test e" and "length (e @ t) \<le> 2000" and "d1 < 1000" and "1000 \<le> d2"
  shows "elapse d2 (scanForErrors True t (elapse d1 (scanForErrors True e initial_scanner))) =
         \<lparr>errorBuffer = [], errorTimeout = None, reported = [e @ t]\<rparr>"
proof -
  have le: "length e \<le> 2000" using assms(2) by simp
  have 1: "scanForErrors True e initial_scanner =
      \<lparr>errorBuffer = e, errorTimeout = Some \<lparr>remaining = 1000, callback = True\<rparr>, reported = []\<rparr>"
    using assms(1) le
    by (simp add: scanForErrors_def initial_scanner_def restart_timeout_def append_bounded_def Let_def)
  have 2: "elapse d1 (scanForErrors True e initial_scanner) =
      \<lparr>errorBuffer = e, errorTimeout = Some \<lparr>remaining = 1000 - d1, callback = True\<rparr>, reported = []\<rparr>"
    unfolding 1 using assms(3) by (simp add: elapse_def)
  have 3: "scanForErrors True t (elapse d1 (scanForErrors True e initial_scanner)) =
      \<lparr>errorBuffer = e @ t, errorTimeout = Some \<lparr>remaining = 1000, callback = True\<rparr>, reported = []\<rparr>"
    unfolding 2 using errorRegex_test_append[OF assms(1), of t] append_bounded_short[OF assms(2)]
    by (simp add: scanForErrors_def restart_timeout_def Let_def)
  show ?thesis
    unfolding 3 using assms(4) by (simp add: elapse_def)
qed

lemma processLog_two_chunks:
  assumes "errorRegex_test e" and "length (e @ t) \<le> 2000" and "d1 < 1000" and "1000 \<le> d2"
  shows "elapse d2 (processLog True t (elapse d1 (processLog True e initial_scanner))) =
         \<lparr>errorBuffer = [], errorTimeout = None,
          reported = [if errorRegex_test t then e @ t else e]\<rparr>"
proof -
  have le: "length e \<le> 2000" using assms(2) by simp
  have 1: "processLog True e initial_scanner =
      \<lparr>errorBuffer = e, errorTimeout = Some \<lparr>remaining = 1000, callback = True\<rparr>, reported = []\<rparr>"
    using assms(1) le
    by (simp add: processLog_def initial_scanner_def restart_timeout_def append_bounded_def Let_def)
  have 2: "elapse d1 (processLog True e initial_scanner) =
      \<lparr>errorBuffer = e, errorTimeout = Some \<lparr>remaining = 1000 - d1, callback = True\<rparr>, reported = []\<rparr>"
    unfolding 1 using assms(3) by (simp add: elapse_def)
  show ?thesis
  proof (cases "errorRegex_test t")
    case True
    have 3: "processLog True t (elapse d1 (processLog True e initial_scanner)) =
      \<lparr>errorBuffer = e @ t, errorTimeout = Some \<lparr>remaining = 1000, callback = True\<rparr>, reported = []\<rparr>"
      unfolding 2 using True append_bounded_short[OF assms(2)]
      by (simp add: processLog_def restart_timeout_def)
    show ?thesis unfolding 3 using assms(4) True by (simp add: elapse_def)
  next
    case False
    have 3: "processLog True t (elapse d1 (processLog True e initial_scanner)) =
      \<lparr>errorBuffer = e, errorTimeout = Some \<lparr>remaining = 1000 - d1, callback = True\<rparr>, reported = []\<rparr>"
      unfolding 2 using False by (simp add: processLog_def)
    show ?thesis unfolding 3 using assms(4) False by (simp add: elapse_def)
  qed
qed

text \<open>
  Claim C6 (error debounce), evaluated at the claim's own input in both variants. The
  scanner starts with an empty buffer and is given \<^verbatim>\<open>onTerminalError\<close>; the chunk
  \<^verbatim>\<open>"Error: x"\<close> arrives, half a second later the chunk \<^verbatim>\<open>"details..."\<close>, then nothing for a
  second. \<^verbatim>\<open>scanForErrors\<close> does what the claim says: one report, \<^verbatim>\<open>"Error: xdetails..."\<close>,
  and an empty buffer. \<^verbatim>\<open>processLog\<close> appends a chunk to the buffer only when the chunk
  itself contains a failure marker, so \<^verbatim>\<open>"details..."\<close> is never buffered: its one report is
  \<^verbatim>\<open>"Error: x"\<close>, without the text of the second chunk. For the same reason a marker that
  is split over two chunks (\<^verbatim>\<open>"Err"\<close>, then \<^verbatim>\<open>"or: boom"\<close>) is reported by \<^verbatim>\<open>scanForErrors\<close>
  and never by \<^verbatim>\<open>processLog\<close>.
\<close>

theorem processLog_report_lacks_second_chunk:
  "elapse 1000 (scan_chunk ScanForErrors True ''details...''
     (elapse 500 (scan_chunk ScanForErrors True ''Error: x'' initial_scanner))) =
     \<lparr>errorBuffer = [], errorTimeout = None, reported = [''Error: xdetails...'']\<rparr> \<and>
   elapse 1000 (scan_chunk ProcessLog True ''details...''
     (elapse 500 (scan_chunk ProcessLog True ''Error: x'' initial_scanner))) =
     \<lparr>errorBuffer = [], errorTimeout = None, reported = [''Error: x'']\<rparr> \<and>
   reported (elapse 1000 (scan_chunk ScanForErrors True ''or: boom''
     (elapse 500 (scan_chunk ScanForErrors True ''Err'' initial_scanner)))) = [''Error: boom''] \<and>
   reported (elapse 1000 (scan_chunk ProcessLog True ''or: boom''
     (elapse 500 (scan_chunk ProcessLog True ''Err'' initial_scanner)))) = []"
  by code_simp


section \<open>Verification: the bring-up of the container\<close>

lemmas straight_line_defs =
  check_node_modules_def install_dependencies_def build_or_start_def setup_done_def
  catch_setup_def

lemma start_when_started:
  "setupStartedRef s \<Longrightarrow> setupContainer_start v p s = (s, None)"
  by (simp add: setupContainer_start_def)

lemma start_sets_flag:
  "snd (setupContainer_start v p s) = Some pc \<Longrightarrow>
   setupStartedRef (fst (setupContainer_start v p s)) \<and> pc = AwaitReadFile"
  by (auto simp: setupContainer_start_def split: if_splits)

lemma start_not_started:
  "snd (setupContainer_start v p s) = None \<Longrightarrow>
   setupStartedRef (fst (setupContainer_start v p s)) = setupStartedRef s"
  by (auto simp: setupContainer_start_def split: if_splits)

lemma resume_keeps_flag:
  "setupContainer_resume v tf p pc r s = Some (s', Some pc') \<Longrightarrow>
   setupStartedRef s' = setupStartedRef s"
  by (cases pc; cases r) (auto simp: straight_line_defs split: if_splits)

lemma one_inflight_step: "at_most_one_inflight sys \<Longrightarrow> at_most_one_inflight (sys_step v tf ev sys)"
proof (cases ev)
  case (Trigger p)
  assume i: "at_most_one_inflight sys"
  show ?thesis
  proof (cases "setupStartedRef (component sys)")
    case True
    then show ?thesis using i Trigger by (simp add: sys_step_def start_when_started)
  next
    case False
    with i have e: "inflight sys = []" by (auto simp: at_most_one_inflight_def)
    obtain s' pco where st: "setupContainer_start v p (component sys) = (s', pco)"
      by (cases "setupContainer_start v p (component sys)")
    show ?thesis
    proof (cases pco)
      case None
      then show ?thesis using Trigger st e by (simp add: sys_step_def at_most_one_inflight_def)
    next
      case (Some pc)
      with start_sets_flag[of v p "component sys" pc] st have "setupStartedRef s'" by simp
      then show ?thesis using Trigger st e Some by (simp add: sys_step_def at_most_one_inflight_def)
    qed
  qed
next
  case (Settle i r)
  assume iv: "at_most_one_inflight sys"
  show ?thesis
  proof (cases "i < length (inflight sys)")
    case False
    then show ?thesis using iv Settle by (simp add: sys_step_def)
  next
    case True
    with iv have l: "length (inflight sys) = 1" and f: "setupStartedRef (component sys)" and i0: "i = 0"
      by (auto simp: at_most_one_inflight_def)
    show ?thesis
    proof (cases "setupContainer_resume v tf (snd (inflight sys ! i)) (fst (inflight sys ! i)) r (component sys)")
      case None
      then show ?thesis using iv Settle True by (simp add: sys_step_def)
    next
      case (Some c)
      obtain s' pco where c: "c = (s', pco)" by (cases c)
      show ?thesis
      proof (cases pco)
        case None
        then show ?thesis using Settle True Some c l i0 by (simp add: sys_step_def at_most_one_inflight_def)
      next
        case (Some pc')
        with resume_keeps_flag[of v tf _ _ r "component sys" s' pc'] \<open>setupContainer_resume v tf (snd (inflight sys ! i)) (fst (inflight sys ! i)) r (component sys) = Some c\<close> c f
        have "setupStartedRef s'" by simp
        then show ?thesis using Settle True Some c l \<open>setupContainer_resume v tf (snd (inflight sys ! i)) (fst (inflight sys ! i)) r (component sys) = Some c\<close>
          by (simp add: sys_step_def at_most_one_inflight_def)
      qed
    qed
  qed
qed

lemma one_inflight_exec: "at_most_one_inflight sys \<Longrightarrow> at_most_one_inflight (exec v tf evs sys)"
  unfolding exec_def by (induction evs arbitrary: sys) (auto intro: one_inflight_step)

lemma one_inflight_initial: "at_most_one_inflight (initial_system fs)"
  by (simp add: at_most_one_inflight_def initial_system_def)

text \<open>
  Claim C1 (at-most-once bring-up). Start from the component as first rendered and let
  the effect run and the awaited promises settle in any order, any number of times, with
  any props and any outcomes. Then at most one attempt is ever suspended, and while one is
  suspended every further run of the effect returns at once, leaving the component as it
  is: it makes no call on the container. Whenever a run of the effect does start an attempt,
  \<^verbatim>\<open>setupStartedRef\<close> is set in the state it leaves at its first \<^verbatim>\<open>await\<close>.
\<close>

theorem bringup_at_most_once:
  "length (inflight (exec v tf evs (initial_system fs))) \<le> 1 \<and>
   (inflight (exec v tf evs (initial_system fs)) \<noteq> [] \<longrightarrow>
      (\<forall>p. setupContainer_start v p (component (exec v tf evs (initial_system fs))) =
             (component (exec v tf evs (initial_system fs)), None))) \<and>
   (snd (setupContainer_start v p' s) \<noteq> None \<longrightarrow>
      setupStartedRef (fst (setupContainer_start v p' s)))"
proof -
  have "at_most_one_inflight (exec v tf evs (initial_system fs))"
    by (rule one_inflight_exec[OF one_inflight_initial])
  then show ?thesis
    using start_sets_flag[of v p' s] by (auto simp: at_most_one_inflight_def start_when_started)
qed

theorem bringup_at_most_once_witness:
  "inflight (exec ProcessLog (\<lambda>fs. fs) ex_events (initial_system [])) =
     [(AwaitReaddir, ex_setup_props)] \<and>
   calls (component (exec ProcessLog (\<lambda>fs. fs) ex_events (initial_system []))) =
     [ReadFile ''/package.json'', Mount [(''package.json'', ''{}'')], Readdir ''/''] \<and>
   setupContainer_start ProcessLog ex_setup_props
       (component (exec ProcessLog (\<lambda>fs. fs) ex_events (initial_system []))) =
     (component (exec ProcessLog (\<lambda>fs. fs) ex_events (initial_system [])), None) \<and>
   setupStartedRef (fst (setupContainer_start ProcessLog ex_setup_props
       (initial_state [] :: files preview_state)))"
proof -
  have i: "inflight (exec ProcessLog (\<lambda>fs. fs) ex_events (initial_system [])) =
     [(AwaitReaddir, ex_setup_props)]"
    by code_simp
  have c: "calls (component (exec ProcessLog (\<lambda>fs. fs) ex_events (initial_system []))) =
     [ReadFile ''/package.json'', Mount [(''package.json'', ''{}'')], Readdir ''/'']"
    by code_simp
  have n: "snd (setupContainer_start ProcessLog ex_setup_props
      (initial_state [] :: files preview_state)) \<noteq> None"
    by code_simp
  from bringup_at_most_once[of ProcessLog "\<lambda>fs. fs" ex_events "[]" ex_setup_props
      "initial_state [] :: files preview_state"] i c n
  show ?thesis by simp
qed


text \<open>Only the continuation after a failed read of the manifest mounts.\<close>

lemma resume_no_mount:
  "pc \<noteq> AwaitReadFile \<Longrightarrow> setupContainer_resume v tf p pc r s = Some (s', pco) \<Longrightarrow>
   (\<exists>new. calls s' = calls s @ new \<and> (\<forall>t. Mount t \<notin> set new)) \<and> pco \<noteq> Some AwaitReadFile"
  by (cases pc; cases r) (auto simp: straight_line_defs split: if_splits)

lemma run_no_mount:
  "pco \<noteq> Some AwaitReadFile \<Longrightarrow>
   \<exists>new. calls (fst (run_attempt v tf p rs (s, pco))) = calls s @ new \<and> (\<forall>t. Mount t \<notin> set new)"
proof (induction rs arbitrary: s pco)
  case Nil
  then show ?case by simp
next
  case (Cons r rs)
  show ?case
  proof (cases pco)
    case None
    then show ?thesis by simp
  next
    case (Some pc)
    with Cons.prems have pc: "pc \<noteq> AwaitReadFile" by simp
    show ?thesis
    proof (cases "setupContainer_resume v tf p pc r s")
      case None
      then show ?thesis using Some Cons.IH[OF Cons.prems, of s] by simp
    next
      case (Some c)
      obtain s' pco' where c: "c = (s', pco')" by (cases c)
      from resume_no_mount[OF pc Some[unfolded c]] obtain new where
        n: "calls s' = calls s @ new" "\<forall>t. Mount t \<notin> set new" and p': "pco' \<noteq> Some AwaitReadFile"
        by blast
      from Cons.IH[OF p', of s'] obtain new' where
        n': "calls (fst (run_attempt v tf p rs (s', pco'))) = calls s' @ new'" "\<forall>t. Mount t \<notin> set new'"
        by blast
      have "calls (fst (run_attempt v tf p (r # rs) (s, pco))) = calls s @ (new @ new')"
        using \<open>pco = Some pc\<close> Some c n n' by simp
      moreover have "\<forall>t. Mount t \<notin> set (new @ new')" using n n' by simp
      ultimately show ?thesis by blast
    qed
  qed
qed

text \<open>Only the continuation after the directory listing spawns the install.\<close>

lemma resume_no_install:
  "past_install pc \<Longrightarrow> setupContainer_resume v tf p pc r s = Some (s', pco) \<Longrightarrow>
   (\<exists>new. calls s' = calls s @ new \<and> Spawn ''pnpm'' [''install'', ''--prefer-offline''] \<notin> set new) \<and>
   (\<forall>pc'. pco = Some pc' \<longrightarrow> past_install pc')"
  by (cases pc; cases r) (auto simp: straight_line_defs past_install_def split: if_splits)

lemma run_no_install:
  "(\<forall>pc. pco = Some pc \<longrightarrow> past_install pc) \<Longrightarrow>
   \<exists>new. calls (fst (run_attempt v tf p rs (s, pco))) = calls s @ new \<and>
         Spawn ''pnpm'' [''install'', ''--prefer-offline''] \<notin> set new"
proof (induction rs arbitrary: s pco)
  case Nil
  then show ?case by simp
next
  case (Cons r rs)
  show ?case
  proof (cases pco)
    case None
    then show ?thesis by simp
  next
    case (Some pc)
    with Cons.prems have pc: "past_install pc" by simp
    show ?thesis
    proof (cases "setupContainer_resume v tf p pc r s")
      case None
      then show ?thesis using Some Cons.IH[OF Cons.prems, of s] by simp
    next
      case (Some c)
      obtain s' pco' where c: "c = (s', pco')" by (cases c)
      from resume_no_install[OF pc Some[unfolded c]] obtain new where
        n: "calls s' = calls s @ new" "Spawn ''pnpm'' [''install'', ''--prefer-offline''] \<notin> set new"
        and p': "\<forall>pc'. pco' = Some pc' \<longrightarrow> past_install pc'"
        by blast
      from Cons.IH[OF p', of s'] obtain new' where
        n': "calls (fst (run_attempt v tf p rs (s', pco'))) = calls s' @ new'"
            "Spawn ''pnpm'' [''install'', ''--prefer-offline''] \<notin> set new'"
        by blast
      have "calls (fst (run_attempt v tf p (r # rs) (s, pco))) = calls s @ (new @ new')"
        using \<open>pco = Some pc\<close> Some c n n' by simp
      moreover have "Spawn ''pnpm'' [''install'', ''--prefer-offline''] \<notin> set (new @ new')"
        using n n' by simp
      ultimately show ?thesis by blast
    qed
  qed
qed

text \<open>
  Claim C5 (skip on existing artifact). If the read of \<^verbatim>\<open>/package.json\<close> resolves, the
  attempt never calls \<^verbatim>\<open>mount\<close>, however the later promises settle; if it rejects, the next
  call is \<^verbatim>\<open>mount\<close>. If the listing of \<^verbatim>\<open>/\<close> has a directory entry \<^verbatim>\<open>node_modules\<close>, the
  attempt never spawns \<^verbatim>\<open>pnpm install\<close>, however the later promises settle; if the listing
  has none, or the listing fails, the next call spawns it.
\<close>

theorem skip_on_existing_artifact:
  "(\<exists>new. calls (fst (run_attempt v tf p (Resolved # rs) (s, Some AwaitReadFile))) = calls s @ new \<and>
          (\<forall>t. Mount t \<notin> set new)) \<and>
   calls (fst (run_attempt v tf p [Rejected e] (s, Some AwaitReadFile))) =
     calls s @ [Mount (tf (files p))] \<and>
   (list_ex (\<lambda>entry. name entry = ''node_modules'' \<and> isDirectory entry) dir \<longrightarrow>
      (\<exists>new. calls (fst (run_attempt v tf p (ResolvedEntries dir # rs) (s, Some AwaitReaddir))) =
               calls s @ new \<and>
             Spawn ''pnpm'' [''install'', ''--prefer-offline''] \<notin> set new)) \<and>
   (\<not> list_ex (\<lambda>entry. name entry = ''node_modules'' \<and> isDirectory entry) dir \<longrightarrow>
      calls (fst (run_attempt v tf p [ResolvedEntries dir] (s, Some AwaitReaddir))) =
        calls s @ [Spawn ''pnpm'' [''install'', ''--prefer-offline'']]) \<and>
   calls (fst (run_attempt v tf p [Rejected e] (s, Some AwaitReaddir))) =
     calls s @ [Spawn ''pnpm'' [''install'', ''--prefer-offline'']]"
proof -
  have 1: "\<exists>new. calls (fst (run_attempt v tf p (Resolved # rs) (s, Some AwaitReadFile))) = calls s @ new \<and>
          (\<forall>t. Mount t \<notin> set new)"
  proof -
    from run_no_mount[of "Some AwaitReaddir" v tf p rs "s\<lparr>calls := calls s @ [Readdir ''/'']\<rparr>"]
    obtain new where
      "calls (fst (run_attempt v tf p rs (s\<lparr>calls := calls s @ [Readdir ''/'']\<rparr>, Some AwaitReaddir))) =
         calls s @ [Readdir ''/''] @ new" "\<forall>t. Mount t \<notin> set new" by auto
    then have "calls (fst (run_attempt v tf p (Resolved # rs) (s, Some AwaitReadFile))) =
         calls s @ (Readdir ''/'' # new) \<and> (\<forall>t. Mount t \<notin> set (Readdir ''/'' # new))"
      by (simp add: check_node_modules_def)
    then show ?thesis by blast
  qed
  have 2: "calls (fst (run_attempt v tf p [Rejected e] (s, Some AwaitReadFile))) =
     calls s @ [Mount (tf (files p))]"
    by simp
  have 3: "\<exists>new. calls (fst (run_attempt v tf p (ResolvedEntries dir # rs) (s, Some AwaitReaddir))) =
               calls s @ new \<and>
             Spawn ''pnpm'' [''install'', ''--prefer-offline''] \<notin> set new"
    if h: "list_ex (\<lambda>entry. name entry = ''node_modules'' \<and> isDirectory entry) dir"
  proof -
    obtain s' pc' where b: "build_or_start p s = (s', Some pc')" and pi: "past_install pc'"
      and cs: "\<exists>c. calls s' = calls s @ [c] \<and> c \<noteq> Spawn ''pnpm'' [''install'', ''--prefer-offline'']"
      by (cases "isProduction p") (auto simp: build_or_start_def past_install_def)
    from cs obtain c where c: "calls s' = calls s @ [c]" "c \<noteq> Spawn ''pnpm'' [''install'', ''--prefer-offline'']"
      by blast
    from run_no_install[of "Some pc'" v tf p rs s'] pi obtain new where
      "calls (fst (run_attempt v tf p rs (s', Some pc'))) = calls s' @ new"
      "Spawn ''pnpm'' [''install'', ''--prefer-offline''] \<notin> set new" by auto
    then have "calls (fst (run_attempt v tf p (ResolvedEntries dir # rs) (s, Some AwaitReaddir))) =
         calls s @ (c # new) \<and> Spawn ''pnpm'' [''install'', ''--prefer-offline''] \<notin> set (c # new)"
      using h b c by simp
    then show ?thesis by blast
  qed
  have 4: "calls (fst (run_attempt v tf p [ResolvedEntries dir] (s, Some AwaitReaddir))) =
        calls s @ [Spawn ''pnpm'' [''install'', ''--prefer-offline'']]"
    if "\<not> list_ex (\<lambda>entry. name entry = ''node_modules'' \<and> isDirectory entry) dir"
    using that by (simp add: install_dependencies_def)
  have 5: "calls (fst (run_attempt v tf p [Rejected e] (s, Some AwaitReaddir))) =
     calls s @ [Spawn ''pnpm'' [''install'', ''--prefer-offline'']]"
    by (simp add: install_dependencies_def)
  from 1 2 3 4 5 show ?thesis by blast
qed

theorem skip_on_existing_artifact_witness:
  "list_ex (\<lambda>entry. name entry = ''node_modules'' \<and> isDirectory entry) ex_node_modules \<and>
   calls (fst (run_attempt ScanForErrors (\<lambda>fs. fs) ex_setup_props
            [Resolved, ResolvedEntries ex_node_modules, Resolved] (ex_started, Some AwaitReadFile))) =
     [ReadFile ''/package.json'', Readdir ''/'', Spawn ''pnpm'' [''run'', ''dev'']] \<and>
   calls (fst (run_attempt ScanForErrors (\<lambda>fs. fs) ex_setup_props
            [Rejected ''ENOENT''] (ex_started, Some AwaitReadFile))) =
     [ReadFile ''/package.json'', Mount [(''package.json'', ''{}'')]] \<and>
   calls (fst (run_attempt ScanForErrors (\<lambda>fs. fs) ex_setup_props
            [Rejected ''EIO''] (ex_started, Some AwaitReaddir))) =
     [ReadFile ''/package.json'', Spawn ''pnpm'' [''install'', ''--prefer-offline'']]"
proof -
  have d: "list_ex (\<lambda>entry. name entry = ''node_modules'' \<and> isDirectory entry) ex_node_modules"
    by code_simp
  have s: "calls ex_started = [ReadFile ''/package.json'']" by code_simp
  have f: "files ex_setup_props = [(''package.json'', ''{}'')]" by code_simp
  have r: "calls (fst (run_attempt ScanForErrors (\<lambda>fs. fs) ex_setup_props
            [Resolved, ResolvedEntries ex_node_modules, Resolved] (ex_started, Some AwaitReadFile))) =
     [ReadFile ''/package.json'', Readdir ''/'', Spawn ''pnpm'' [''run'', ''dev'']]"
    by code_simp
  from skip_on_existing_artifact[of ScanForErrors "\<lambda>fs. fs" ex_setup_props "[]" ex_started
      "''ENOENT''" ex_node_modules] 
  have "calls (fst (run_attempt ScanForErrors (\<lambda>fs. fs) ex_setup_props
            [Rejected ''ENOENT''] (ex_started, Some AwaitReadFile))) =
        calls ex_started @ [Mount (files ex_setup_props)]" by blast
  moreover
  from skip_on_existing_artifact[of ScanForErrors "\<lambda>fs. fs" ex_setup_props "[]" ex_started
      "''EIO''" ex_node_modules] 
  have "calls (fst (run_attempt ScanForErrors (\<lambda>fs. fs) ex_setup_props
            [Rejected ''EIO''] (ex_started, Some AwaitReaddir))) =
        calls ex_started @ [Spawn ''pnpm'' [''install'', ''--prefer-offline'']]" by blast
  ultimately show ?thesis using d s f r by simp
qed


lemma catch_setup_result:
  "\<exists>s'. catch_setup v p msg s = (s', None) \<and> setupError s' = Some msg \<and>
        \<not> setupStartedRef s' \<and> calls s' = calls s \<and> setupCompleteSet s' = setupCompleteSet s"
  by (simp add: catch_setup_def)

lemma rejected_step:
  "pc \<in> {AwaitMount, AwaitSpawnInstall, AwaitInstallExit, AwaitSpawnBuild, AwaitBuildExit,
          AwaitSpawnServe, AwaitSpawnDev} \<Longrightarrow>
   setupContainer_resume v tf p pc (Rejected e) s = Some (catch_setup v p e s)"
  by auto

lemma start_after_failure:
  "\<not> setupStartedRef s \<Longrightarrow> webContainerInstance p \<Longrightarrow> \<not> isSetupComplete p \<Longrightarrow>
   serverUrl p = [] \<Longrightarrow>
   truthy (lookup (files p) ''package.json'') \<or> truthy (lookup (files p) ''/package.json'') \<Longrightarrow>
   snd (setupContainer_start v p s) = Some AwaitReadFile \<and>
   calls (fst (setupContainer_start v p s)) = calls s @ [ReadFile ''/package.json''] \<and>
   setupStartedRef (fst (setupContainer_start v p s)) \<and>
   currentStep (fst (setupContainer_start v p s)) = Mounting \<and>
   setupError (fst (setupContainer_start v p s)) = None"
  by (auto simp: setupContainer_start_def)

text \<open>
  Claim C8 (bring-up failure handling). When the promise of a bring-up step (mount, a
  spawn, an exit) rejects with message \<open>e\<close>, or when the install or the build exits with a
  code other than 0, the attempt ends there without a further call on the container:
  \<^verbatim>\<open>setupError\<close> holds the message (for an exit code, the message of the error raised for
  it), and \<^verbatim>\<open>setupStartedRef\<close> is false. The next run of the effect for a container that is
  present and not set up, with no server URL and the manifest in the map, starts a new
  attempt from the top: it sets the flag, clears the error, shows the mounting step and
  reads \<^verbatim>\<open>/package.json\<close> again.
\<close>

theorem bringup_failure_handling:
  assumes pc: "pc \<in> {AwaitMount, AwaitSpawnInstall, AwaitInstallExit, AwaitSpawnBuild,
                     AwaitBuildExit, AwaitSpawnServe, AwaitSpawnDev}"
    and code: "code \<noteq> 0"
    and retry: "webContainerInstance p'" "\<not> isSetupComplete p'" "serverUrl p' = []"
               "truthy (lookup (files p') ''package.json'') \<or>
                truthy (lookup (files p') ''/package.json'')"
  shows "\<exists>s1 s2 s3.
           setupContainer_resume v tf p pc (Rejected e) s = Some (s1, None) \<and>
           setupError s1 = Some e \<and> \<not> setupStartedRef s1 \<and> calls s1 = calls s \<and>
           setupContainer_resume v tf p AwaitInstallExit (ResolvedExit code) s = Some (s2, None) \<and>
           setupError s2 = Some (''Failed to install dependencies. Exit code: '' @ number_toString code) \<and>
           \<not> setupStartedRef s2 \<and> calls s2 = calls s \<and>
           setupContainer_resume v tf p AwaitBuildExit (ResolvedExit code) s = Some (s3, None) \<and>
           setupError s3 = Some (''Build failed with exit code: '' @ number_toString code) \<and>
           \<not> setupStartedRef s3 \<and> calls s3 = calls s \<and>
           (\<forall>s' \<in> {s1, s2, s3}.
              snd (setupContainer_start v p' s') = Some AwaitReadFile \<and>
              setupStartedRef (fst (setupContainer_start v p' s')) \<and>
              currentStep (fst (setupContainer_start v p' s')) = Mounting \<and>
              setupError (fst (setupContainer_start v p' s')) = None \<and>
              calls (fst (setupContainer_start v p' s')) = calls s' @ [ReadFile ''/package.json''])"
proof -
  from catch_setup_result[of v p e s] obtain s1 where
    s1: "catch_setup v p e s = (s1, None)" "setupError s1 = Some e" "\<not> setupStartedRef s1"
        "calls s1 = calls s" by blast
  from catch_setup_result[of v p "''Failed to install dependencies. Exit code: '' @ number_toString code" s]
  obtain s2 where
    s2: "catch_setup v p (''Failed to install dependencies. Exit code: '' @ number_toString code) s = (s2, None)"
        "setupError s2 = Some (''Failed to install dependencies. Exit code: '' @ number_toString code)"
        "\<not> setupStartedRef s2" "calls s2 = calls s" by blast
  from catch_setup_result[of v p "''Build failed with exit code: '' @ number_toString code" s]
  obtain s3 where
    s3: "catch_setup v p (''Build failed with exit code: '' @ number_toString code) s = (s3, None)"
        "setupError s3 = Some (''Build failed with exit code: '' @ number_toString code)"
        "\<not> setupStartedRef s3" "calls s3 = calls s" by blast
  have r1: "setupContainer_resume v tf p pc (Rejected e) s = Some (s1, None)"
    by (simp only: rejected_step[OF pc] s1(1))
  have r2: "setupContainer_resume v tf p AwaitInstallExit (ResolvedExit code) s = Some (s2, None)"
    using code s2(1) by simp
  have r3: "setupContainer_resume v tf p AwaitBuildExit (ResolvedExit code) s = Some (s3, None)"
    using code s3(1) by simp
  have again: "snd (setupContainer_start v p' s') = Some AwaitReadFile \<and>
              setupStartedRef (fst (setupContainer_start v p' s')) \<and>
              currentStep (fst (setupContainer_start v p' s')) = Mounting \<and>
              setupError (fst (setupContainer_start v p' s')) = None \<and>
              calls (fst (setupContainer_start v p' s')) = calls s' @ [ReadFile ''/package.json'']"
    if "\<not> setupStartedRef s'" for s' :: "'a preview_state"
    using start_after_failure[OF that retry, of v] by simp
  show ?thesis
    using r1 r2 r3 s1(2-) s2(2-) s3(2-) again[of s1] again[of s2] again[of s3]
    by (intro exI[of _ s1] exI[of _ s2] exI[of _ s3]) simp
qed

theorem bringup_failure_handling_witness:
  "AwaitMount \<in> {AwaitMount, AwaitSpawnInstall, AwaitInstallExit, AwaitSpawnBuild,
                  AwaitBuildExit, AwaitSpawnServe, AwaitSpawnDev} \<and>
   webContainerInstance ex_setup_props \<and> \<not> isSetupComplete ex_setup_props \<and>
   serverUrl ex_setup_props = [] \<and> truthy (lookup (files ex_setup_props) ''package.json'') \<and>
   map_option (\<lambda>r. (setupError (fst r), setupStartedRef (fst r), snd r))
     (setupContainer_resume ScanForErrors (\<lambda>fs. fs) ex_setup_props AwaitInstallExit
        (ResolvedExit 1) ex_started) =
     Some (Some ''Failed to install dependencies. Exit code: 1'', False, None) \<and>
   map_option (\<lambda>r. (setupError (fst r), setupStartedRef (fst r), snd r))
     (setupContainer_resume ScanForErrors (\<lambda>fs. fs) ex_setup_props AwaitMount
        (Rejected ''mount failed'') ex_started) =
     Some (Some ''mount failed'', False, None)"
proof -
  have pc: "AwaitMount \<in> {AwaitMount, AwaitSpawnInstall, AwaitInstallExit, AwaitSpawnBuild,
                  AwaitBuildExit, AwaitSpawnServe, AwaitSpawnDev}" by simp
  have code: "(1::int) \<noteq> 0" by simp
  have h1: "webContainerInstance ex_setup_props" by code_simp
  have h2: "\<not> isSetupComplete ex_setup_props" by code_simp
  have h3: "serverUrl ex_setup_props = []" by code_simp
  have h4: "truthy (lookup (files ex_setup_props) ''package.json'')" by code_simp
  then have h4': "truthy (lookup (files ex_setup_props) ''package.json'') \<or>
                truthy (lookup (files ex_setup_props) ''/package.json'')" by simp
  have n: "number_toString 1 = ''1''" by code_simp
  from bringup_failure_handling[OF pc code h1 h2 h3 h4', of ScanForErrors "\<lambda>fs. fs"
      ex_setup_props "''mount failed''" ex_started]
  obtain s1 s2 where
    "setupContainer_resume ScanForErrors (\<lambda>fs. fs) ex_setup_props AwaitMount
        (Rejected ''mount failed'') ex_started = Some (s1, None)"
    "setupError s1 = Some ''mount failed''" "\<not> setupStartedRef s1"
    "setupContainer_resume ScanForErrors (\<lambda>fs. fs) ex_setup_props AwaitInstallExit
        (ResolvedExit 1) ex_started = Some (s2, None)"
    "setupError s2 = Some (''Failed to install dependencies. Exit code: '' @ number_toString 1)"
    "\<not> setupStartedRef s2" by blast
  then show ?thesis using pc h1 h2 h3 h4 n by simp
qed


end
